theory Spec2Isabelle
  imports Complex_Main "HOL-Library.Word"
begin

unbundle bit_operations_syntax

section \<open>Machine types\<close>

text \<open>
  The sources use the aliases \<open>u32\<close>, \<open>i32\<close> and \<open>u64\<close> of \<open>types.cuh\<close>.  A signed
  32-bit value is kept as its two's-complement bit pattern, so \<open>u32\<close> and \<open>i32\<close> are the
  same word type and the conversions between them are the identity; \<open>sint\<close> reads the
  signed value where the source compares signed numbers.
\<close>

type_synonym u32 = "32 word"
type_synonym i32 = "32 word"
type_synonym u64 = "64 word"

section \<open>Document offsets: \<open>compute_d_idx\<close>\<close>

text \<open>
  The kernel runs in one block of \<open>blockDim\<close> threads (the launch passes
  \<open>GPULDA_COMPUTE_D_IDX_BLOCKDIM\<close>, a constant of \<open>tuning.cuh\<close>, taken here as a
  parameter).  Every round of the loop handles one block-sized chunk: thread \<open>tid\<close> loads
  \<open>d_len[i]\<close> for \<open>i = tid + offset * blockDim\<close> (or 0 past \<open>n_docs\<close>), the block runs
  \<open>cub::BlockScan::ExclusiveScan\<close> with the sum operator, the running \<open>initial_value\<close>
  is added by hand, and the thread stores its value to \<open>d_idx[i]\<close> when \<open>i < n_docs\<close>.
  The two arrays are distinct device buffers of at least \<open>n_docs\<close> entries each; the
  record holds both so that the frame condition on \<open>d_len\<close> can be stated.
\<close>

record doc_arrays =
  d_len :: "u32 list"
  d_idx :: "u32 list"

text \<open>
  \<open>ExclusiveScan(input, output, 0, cub::Sum(), block_aggregate)\<close> of the CUB library:
  thread \<open>tid\<close> receives the sum of the inputs of the threads below it, and every thread
  receives the sum of all inputs as the block aggregate.
\<close>

definition ExclusiveScan :: "i32 list \<Rightarrow> i32 list \<times> i32" where
  "ExclusiveScan input = (map (\<lambda>tid. sum_list (take tid input)) [0..<length input], sum_list input)"

definition load_thread_d :: "nat \<Rightarrow> u32 list \<Rightarrow> nat \<Rightarrow> nat \<Rightarrow> i32 list" where
  "load_thread_d blockDim dl n_docs offset =
     map (\<lambda>tid. let i = tid + offset * blockDim in if i < n_docs then dl ! i else 0) [0..<blockDim]"

definition store_thread_d :: "nat \<Rightarrow> nat \<Rightarrow> nat \<Rightarrow> i32 list \<Rightarrow> u32 list \<Rightarrow> u32 list" where
  "store_thread_d blockDim n_docs offset thread_d di =
     fold (\<lambda>tid acc. let i = tid + offset * blockDim in if i < n_docs then acc[i := thread_d ! tid] else acc)
       [0..<blockDim] di"

definition compute_d_idx_chunk :: "nat \<Rightarrow> u32 list \<Rightarrow> nat \<Rightarrow> nat \<Rightarrow> i32 \<times> u32 list \<Rightarrow> i32 \<times> u32 list" where
  "compute_d_idx_chunk blockDim dl n_docs offset st =
     (case st of (initial_value, di) \<Rightarrow>
        (case ExclusiveScan (load_thread_d blockDim dl n_docs offset) of (scanned, total_value) \<Rightarrow>
           (total_value + initial_value,
            store_thread_d blockDim n_docs offset (map (\<lambda>x. x + initial_value) scanned) di)))"

definition compute_d_idx :: "nat \<Rightarrow> doc_arrays \<Rightarrow> nat \<Rightarrow> doc_arrays" where
  "compute_d_idx blockDim mem n_docs =
     mem\<lparr>d_idx := snd (fold (compute_d_idx_chunk blockDim (d_len mem) n_docs)
                          [0..<n_docs div blockDim + 1] (0, d_idx mem))\<rparr>"

lemma store_thread_d_length [simp]:
  "length (store_thread_d B n off v di) = length di"
proof -
  have "length (fold (\<lambda>tid acc. let i = tid + off * B in if i < n then acc[i := v ! tid] else acc) ts di) = length di" for ts
    by (induction ts arbitrary: di) (auto simp: Let_def)
  then show ?thesis by (simp add: store_thread_d_def)
qed

lemma store_fold_nth:
  "n \<le> length di \<Longrightarrow>
   fold (\<lambda>tid acc. let i = tid + c in if i < n then acc[i := v tid] else acc) [0..<m] di ! j =
     (if c \<le> j \<and> j < c + m \<and> j < n then v (j - c) else di ! j)"
proof (induction m)
  case 0
  then show ?case by auto
next
  case (Suc m)
  define F where "F = fold (\<lambda>tid acc. let i = tid + c in if i < n then acc[i := v tid] else acc) [0..<m] di"
  have len: "length F = length di"
  proof -
    have "length (fold (\<lambda>tid acc. let i = tid + c in if i < n then acc[i := v tid] else acc) ts xs) = length xs"
      for ts xs
      by (induction ts arbitrary: xs) (auto simp: Let_def)
    then show ?thesis by (simp add: F_def)
  qed
  have IH: "F ! j = (if c \<le> j \<and> j < c + m \<and> j < n then v (j - c) else di ! j)"
    using Suc by (simp add: F_def)
  have step: "fold (\<lambda>tid acc. let i = tid + c in if i < n then acc[i := v tid] else acc) [0..<Suc m] di =
      (if m + c < n then F[m + c := v m] else F)"
    by (simp add: F_def Let_def)
  show ?case
  proof (cases "j = m + c")
    case True
    have "F[m + c := v m] ! (m + c) = v m" if "m + c < n"
      using that len Suc.prems by simp
    then show ?thesis unfolding step using True IH by auto
  next
    case False
    then have "(if m + c < n then F[m + c := v m] else F) ! j = F ! j" by simp
    moreover have "(c \<le> j \<and> j < c + Suc m \<and> j < n) = (c \<le> j \<and> j < c + m \<and> j < n)"
      using False by auto
    ultimately show ?thesis unfolding step using IH by presburger
  qed
qed

lemma store_thread_d_nth:
  assumes "n \<le> length di"
  shows "store_thread_d B n off v di ! j =
     (if off * B \<le> j \<and> j < off * B + B \<and> j < n then v ! (j - off * B) else di ! j)"
  unfolding store_thread_d_def using store_fold_nth [OF assms, of "off * B" "\<lambda>tid. v ! tid" B j]
  by simp

lemma chunk_invariant:
  assumes B: "0 < B" and ndl: "n \<le> length dl" and ndi: "n \<le> length di"
  shows "fst (fold (compute_d_idx_chunk B dl n) [0..<m] (0, di)) = sum_list (take (min (m * B) n) dl)
       \<and> length (snd (fold (compute_d_idx_chunk B dl n) [0..<m] (0, di))) = length di
       \<and> (\<forall>j. snd (fold (compute_d_idx_chunk B dl n) [0..<m] (0, di)) ! j =
              (if j < min (m * B) n then sum_list (take j dl) else di ! j))"
proof (induction m)
  case 0
  then show ?case by simp
next
  case (Suc m)
  define st where "st = fold (compute_d_idx_chunk B dl n) [0..<m] (0, di)"
  define iv where "iv = fst st"
  define cur where "cur = snd st"
  define ld where "ld = load_thread_d B dl n m"
  have st: "st = (iv, cur)" by (simp add: iv_def cur_def)
  from Suc have iv: "iv = sum_list (take (min (m * B) n) dl)"
    and len: "length cur = length di"
    and cur: "\<And>j. cur ! j = (if j < min (m * B) n then sum_list (take j dl) else di ! j)"
    by (simp_all add: st_def iv_def cur_def)
  have ld_nth: "ld ! s = (if s + m * B < n then dl ! (s + m * B) else 0)" if "s < B" for s
    using that by (simp add: ld_def load_thread_d_def Let_def)
  have ld_len: "length ld = B" by (simp add: ld_def load_thread_d_def)
  have pre: "sum_list (take t ld) + iv = sum_list (take (min (t + m * B) n) dl)" if "t \<le> B" for t
    using that
  proof (induction t)
    case 0
    then show ?case by (simp add: iv)
  next
    case (Suc t)
    then have t: "t < B" by simp
    have "sum_list (take (Suc t) ld) = sum_list (take t ld) + ld ! t"
      using t ld_len by (simp add: take_Suc_conv_app_nth)
    moreover have "sum_list (take (min (Suc t + m * B) n) dl) = sum_list (take (min (t + m * B) n) dl) + ld ! t"
    proof (cases "t + m * B < n")
      case True
      then have "min (Suc t + m * B) n = Suc (t + m * B)" "min (t + m * B) n = t + m * B" by simp_all
      moreover have "t + m * B < length dl" using True ndl by simp
      ultimately show ?thesis using True ld_nth [OF t] by (simp add: take_Suc_conv_app_nth)
    next
      case False
      then show ?thesis using ld_nth [OF t] by (simp add: min_def)
    qed
    ultimately show ?case using Suc.IH t by (simp add: add.commute add.left_commute)
  qed
  have step: "fold (compute_d_idx_chunk B dl n) [0..<Suc m] (0, di) =
     (sum_list ld + iv, store_thread_d B n m (map (\<lambda>x. x + iv) (map (\<lambda>tid. sum_list (take tid ld)) [0..<B])) cur)"
    by (simp add: st_def [symmetric] st compute_d_idx_chunk_def ExclusiveScan_def ld_def [symmetric] ld_len)
  have fst_ok: "sum_list ld + iv = sum_list (take (min (Suc m * B) n) dl)"
    using pre [of B] ld_len by (simp add: add.commute)
  have ncur: "n \<le> length cur" using len ndi by simp
  have snd_ok: "store_thread_d B n m (map (\<lambda>x. x + iv) (map (\<lambda>tid. sum_list (take tid ld)) [0..<B])) cur ! j =
      (if j < min (Suc m * B) n then sum_list (take j dl) else di ! j)" for j
  proof (cases "m * B \<le> j \<and> j < m * B + B \<and> j < n")
    case True
    then have jB: "j - m * B < B" by linarith
    have "sum_list (take (j - m * B) ld) + iv = sum_list (take (min (j - m * B + m * B) n) dl)"
      using pre [of "j - m * B"] jB by simp
    also have "min (j - m * B + m * B) n = j" using True by simp
    finally show ?thesis using True jB by (simp add: store_thread_d_nth [OF ncur])
  next
    case False
    then show ?thesis using cur [of j] by (auto simp add: store_thread_d_nth [OF ncur])
  qed
  show ?case unfolding step using fst_ok snd_ok len by simp
qed

lemma unat_sum_list_no_overflow:
  fixes xs :: "u32 list"
  shows "sum_list (map unat xs) < 2 ^ 32 \<Longrightarrow> unat (sum_list xs) = sum_list (map unat xs)"
proof (induction xs)
  case Nil
  then show ?case by simp
next
  case (Cons x xs)
  then have "unat (sum_list xs) = sum_list (map unat xs)" by simp
  moreover from Cons.prems have "unat x + sum_list (map unat xs) < 2 ^ LENGTH(32)" by simp
  ultimately show ?case by (simp add: unat_add_lem [THEN iffD1])
qed

lemma sum_list_take_le:
  fixes ns :: "nat list"
  shows "sum_list (take i ns) \<le> sum_list ns"
proof -
  have "sum_list ns = sum_list (take i ns) + sum_list (drop i ns)"
    by (metis append_take_drop_id sum_list_append)
  then show ?thesis by simp
qed

text \<open>
  Claim C7.  For every array \<open>d_len\<close> of \<open>n_docs\<close> document lengths, \<open>compute_d_idx\<close>
  writes the exclusive prefix sum of \<open>d_len\<close> into \<open>d_idx\<close>: for every \<open>i < n_docs\<close>,
  \<open>d_idx[i]\<close> is the sum of \<open>d_len[0]\<close> to \<open>d_len[i-1]\<close> (so \<open>d_idx[0] = 0\<close>), whatever the
  number of block-sized chunks, and \<open>d_len\<close> is unchanged.  The sum is the kernel's own
  32-bit sum; it is the sum of the lengths as natural numbers whenever the total stays
  below \<open>2^32\<close>.
\<close>

theorem compute_d_idx_exclusive_prefix_sum:
  assumes "0 < blockDim" and "n_docs \<le> length (d_len mem)" and "n_docs \<le> length (d_idx mem)"
  shows "(\<forall>i<n_docs. d_idx (compute_d_idx blockDim mem n_docs) ! i = sum_list (take i (d_len mem))
            \<and> (sum_list (map unat (d_len mem)) < 2 ^ 32 \<longrightarrow>
                 unat (d_idx (compute_d_idx blockDim mem n_docs) ! i) = sum_list (map unat (take i (d_len mem)))))
       \<and> d_len (compute_d_idx blockDim mem n_docs) = d_len mem"
proof -
  have "n_docs < (n_docs div blockDim + 1) * blockDim"
    using assms(1) by (metis Suc_eq_plus1 dividend_less_div_times mult.commute mult_Suc)
  then have "min ((n_docs div blockDim + 1) * blockDim) n_docs = n_docs" by simp
  then have word: "d_idx (compute_d_idx blockDim mem n_docs) ! i = sum_list (take i (d_len mem))"
    if "i < n_docs" for i
    using that chunk_invariant [OF assms, of "n_docs div blockDim + 1"]
    by (simp add: compute_d_idx_def)
  have nat: "unat (sum_list (take i (d_len mem))) = sum_list (map unat (take i (d_len mem)))"
    if "sum_list (map unat (d_len mem)) < 2 ^ 32" for i
  proof -
    have "sum_list (map unat (take i (d_len mem))) \<le> sum_list (map unat (d_len mem))"
      using sum_list_take_le [of i "map unat (d_len mem)"] by (simp add: take_map)
    with that have "sum_list (map unat (take i (d_len mem))) < 2 ^ 32" by simp
    then show ?thesis by (rule unat_sum_list_no_overflow)
  qed
  have "d_len (compute_d_idx blockDim mem n_docs) = d_len mem"
    by (simp add: compute_d_idx_def)
  with word nat show ?thesis by simp
qed

theorem compute_d_idx_exclusive_prefix_sum_witness:
  "d_idx (compute_d_idx 4 \<lparr>d_len = [3, 1, 4, 1, 5, 9], d_idx = [7, 7, 7, 7, 7, 7, 7]\<rparr> 6) ! 5 = 14
   \<and> d_idx (compute_d_idx 4 \<lparr>d_len = [3, 1, 4, 1, 5, 9], d_idx = [7, 7, 7, 7, 7, 7, 7]\<rparr> 6) ! 0 = 0
   \<and> d_len (compute_d_idx 4 \<lparr>d_len = [3, 1, 4, 1, 5, 9], d_idx = [7, 7, 7, 7, 7, 7, 7]\<rparr> 6) = [3, 1, 4, 1, 5, 9]"
  using compute_d_idx_exclusive_prefix_sum
    [of 4 6 "\<lparr>d_len = [3, 1, 4, 1, 5, 9], d_idx = [7, 7, 7, 7, 7, 7, 7]\<rparr>"]
  by simp

section \<open>The concurrent count table: \<open>HashMap\<close>\<close>

text \<open>
  One table belongs to one cooperative group: a half-warp of 16 lanes that runs in
  lockstep.  The model follows the group, not the single lane: a value every lane computes
  alike is one value, a per-lane value is a list with one element per lane (lane 0 first),
  \<open>__ballot(p) & half_lane_mask\<close> is the list of the lanes' votes, \<open>__ffs\<close> is the
  1-based position of the lowest voting lane (0 when nobody votes), and a shuffle from
  lane \<open>l\<close> reads element \<open>l\<close>.  Operations on one table are issued one after the other
  by the owning group, so a compare-and-swap finds the word the lane has just read; the
  comparison is modelled all the same.  Its outcome is taken as the \<open>swap_success\<close> of
  the whole group: the source calls \<open>__shfl(swap_success, swap_idx, warpSize/2)\<close> at
  this point, and although it does not store what the shuffle returns, the lanes of the
  group are not followed one by one here.

  \<open>capacity\<close>, slots, strides and distances are \<open>i32\<close> values that are never negative;
  they are natural numbers here, and \<open>wf_table\<close> below bounds the capacity so that none
  of the 32-bit sums of the probe arithmetic can wrap.  The field \<open>size\<close> is called
  \<open>size_m\<close>, the hash parameters \<open>a\<close>, \<open>b\<close>, \<open>c\<close>, \<open>d\<close> are \<open>hash_a\<close> to \<open>hash_d\<close>,
  \<open>data_non_aligned\<close> records whether the pointer is non-NULL, and \<open>data\<close> is the
  content of the \<open>capacity\<close> words the aligned pointer addresses.
\<close>

record HashMap =
  size_m :: i32
  capacity :: nat
  data :: "u64 list"
  data_non_aligned :: bool
  hash_a :: i32
  hash_b :: i32
  hash_c :: i32
  hash_d :: i32
  rebuild :: bool

subsection \<open>Packed entries\<close>

text \<open>
  \<open>bfe.u64\<close> extracts \<open>num_bits\<close> bits of \<open>source\<close> starting at \<open>bit_start\<close>;
  \<open>bfi.b64 ret, y, x, bit_start, num_bits\<close> (the operand order of the \<open>asm\<close> statement)
  returns \<open>x\<close> with that bit field replaced by the low bits of \<open>y\<close>.  The accessors
  \<open>key\<close>, \<open>value\<close> and the constant \<open>empty\<close> of the source are \<open>key_of\<close>,
  \<open>value_of\<close> and \<open>empty_entry\<close>.
\<close>

definition bfe_b64 :: "u64 \<Rightarrow> nat \<Rightarrow> nat \<Rightarrow> u64" where
  "bfe_b64 source bit_start num_bits = take_bit num_bits (drop_bit bit_start source)"

definition bfi_b64 :: "u64 \<Rightarrow> u64 \<Rightarrow> nat \<Rightarrow> nat \<Rightarrow> u64" where
  "bfi_b64 x y bit_start num_bits =
     (x AND NOT (push_bit bit_start (mask num_bits))) OR push_bit bit_start (take_bit num_bits y)"

definition entry :: "u32 \<Rightarrow> u32 \<Rightarrow> u64" where
  "entry k v = bfi_b64 (ucast v) (ucast k) 32 32"

definition with_key :: "u32 \<Rightarrow> u64 \<Rightarrow> u64" where
  "with_key k e = bfi_b64 e (ucast k) 32 32"

definition with_value :: "u64 \<Rightarrow> u64 \<Rightarrow> u64" where
  "with_value v e = bfi_b64 e v 0 32"

definition key_of :: "u64 \<Rightarrow> u32" where
  "key_of e = ucast (bfe_b64 e 32 32)"

definition value_of :: "u64 \<Rightarrow> u32" where
  "value_of e = ucast (bfe_b64 e 0 32)"

definition empty_entry :: u64 where
  "empty_entry = 0xffffffff00000000"

lemma key_of_entry [simp]: "key_of (entry k v) = k"
  unfolding key_of_def entry_def bfe_b64_def bfi_b64_def
  by (rule bit_word_eqI) (auto simp add: bit_simps)

lemma value_of_entry [simp]: "value_of (entry k v) = v"
  unfolding value_of_def entry_def bfe_b64_def bfi_b64_def
  by (rule bit_word_eqI) (auto simp add: bit_simps)

lemma key_of_empty_entry [simp]: "key_of empty_entry = 0xffffffff"
  by (simp add: key_of_def empty_entry_def bfe_b64_def)

lemma value_of_empty_entry [simp]: "value_of empty_entry = 0"
  by (simp add: value_of_def empty_entry_def bfe_b64_def)

lemma entry_inject [simp]: "entry k v = entry k' v' \<longleftrightarrow> k = k' \<and> v = v'"
  by (metis key_of_entry value_of_entry)

lemma empty_entry_eq: "empty_entry = entry 0xffffffff 0"
  unfolding empty_entry_def entry_def bfi_b64_def by simp

lemma entry_eq_empty_iff [simp]: "entry k v = empty_entry \<longleftrightarrow> k = 0xffffffff \<and> v = 0"
  by (simp add: empty_entry_eq)

lemma value_of_eq_ucast: "value_of e = ucast e"
  unfolding value_of_def bfe_b64_def
  by (rule bit_word_eqI) (auto simp add: bit_simps)

lemma with_value_eq: "with_value v e = entry (key_of e) (ucast v)"
  unfolding with_value_def key_of_def entry_def bfe_b64_def bfi_b64_def
  by (rule bit_word_eqI) (auto simp add: bit_simps)

lemma key_of_ucast [simp]: "key_of (ucast (w :: u32)) = 0"
  unfolding key_of_def bfe_b64_def
  by (rule bit_word_eqI) (auto simp add: bit_simps dest: bit_imp_le_length)

lemma value_of_scast [simp]: "value_of (scast (w :: i32) :: u64) = w"
  unfolding value_of_def bfe_b64_def
  by (rule bit_word_eqI) (auto simp add: bit_simps)

lemma key_of_scast: "key_of (scast (w :: i32) :: u64) = (if sint w < 0 then 0xffffffff else 0)"
proof -
  have last: "bit w 31 \<longleftrightarrow> sint w < 0" using bit_last_iff [of w] by simp
  have "bit (key_of (scast w :: u64)) n = bit (if sint w < 0 then 0xffffffff else 0 :: u32) n" for n
  proof (cases "n < 32")
    case True
    have m: "(0xffffffff :: u32) = - 1" by simp
    from True show ?thesis
      unfolding key_of_def bfe_b64_def m
      by (auto simp add: bit_simps last min_def)
  next
    case False
    then show ?thesis by (auto dest: bit_imp_le_length)
  qed
  then show ?thesis by (rule bit_eqI)
qed

subsection \<open>Hash functions and probe distance\<close>

text \<open>
  \<open>a * key + b\<close> is unsigned 32-bit arithmetic (it wraps); the two remainders and the
  product with the line size are taken on the resulting small numbers.  A capacity below
  16 makes \<open>capacity / GPULDA_HASH_LINE_SIZE\<close> zero and the remainder undefined in the
  source; \<open>get2\<close> and \<open>try_insert2\<close> below report that case as the fault
  \<open>DivisionByZero\<close> before they hash.  \<open>key_distance\<close> is the source's loop over
  \<open>i < GPULDA_HASH_MAX_NUM_LINES - 1\<close> with its early return, and
  \<open>GPULDA_HASH_MAX_NUM_LINES = 4\<close> when no round matches.
\<close>

definition hash_slot :: "HashMap \<Rightarrow> u32 \<Rightarrow> nat" where
  "hash_slot t k = unat ((hash_a t * k + hash_b t) mod 334214459) mod (capacity t div 16) * 16"

definition hash_stride :: "HashMap \<Rightarrow> u32 \<Rightarrow> nat" where
  "hash_stride t k = unat ((hash_c t * k + hash_d t) mod 334214459) mod (capacity t div 16) * 16"

definition key_distance :: "HashMap \<Rightarrow> u32 \<Rightarrow> nat \<Rightarrow> nat" where
  "key_distance t k slot =
     (let initial_slot = hash_slot t k; stride = hash_stride t k in
      case find (\<lambda>i. (initial_slot + i * stride) mod capacity t = slot) [0..<4 - 1] of
        Some i \<Rightarrow> i
      | None \<Rightarrow> 4)"




subsection \<open>Votes of the half-warp and line loads\<close>

datatype fault = DivisionByZero | OutOfBounds

definition ballot :: "('a \<Rightarrow> bool) \<Rightarrow> 'a list \<Rightarrow> bool list" where
  "ballot p lanes = map p lanes"

fun ffs :: "bool list \<Rightarrow> nat" where
  "ffs [] = 0"
| "ffs (b # bs) = (if b then 1 else if ffs bs = 0 then 0 else Suc (ffs bs))"

definition nonzero :: "bool list \<Rightarrow> bool" where
  "nonzero bits = (True \<in> set bits)"

definition load_line :: "HashMap \<Rightarrow> nat \<Rightarrow> u64 list option" where
  "load_line t slot =
     (if slot + 16 \<le> length (data t)
      then Some (map (\<lambda>half_lane_idx. data t ! (slot + half_lane_idx)) [0..<16])
      else None)"

lemma ffs_le_length: "ffs bits \<le> length bits"
  by (induction bits) auto

lemma ffs_nonzero: "nonzero bits \<Longrightarrow> 0 < ffs bits \<and> bits ! (ffs bits - 1)"
  unfolding nonzero_def
proof (induction bits)
  case Nil
  then show ?case by simp
next
  case (Cons b bits)
  then show ?case by (cases b) (auto simp: nth_Cons')
qed

lemma ffs_lane: "nonzero bits \<Longrightarrow> ffs bits - 1 < length bits"
  using ffs_nonzero [of bits] ffs_le_length [of bits] by linarith


lemma nonzero_ballot_lane:
  assumes "nonzero (ballot p lanes)"
  shows "ffs (ballot p lanes) - 1 < length lanes \<and> p (lanes ! (ffs (ballot p lanes) - 1))"
proof -
  have l: "ffs (ballot p lanes) - 1 < length lanes"
    using ffs_lane [OF assms] by (simp add: ballot_def)
  moreover have "ballot p lanes ! (ffs (ballot p lanes) - 1)"
    using ffs_nonzero [OF assms] by simp
  ultimately show ?thesis by (simp add: ballot_def)
qed

lemma load_line_SomeD:
  assumes "load_line t slot = Some es"
  shows "slot + 16 \<le> length (data t)" and "length es = 16"
    and "\<And>l. l < 16 \<Longrightarrow> es ! l = data t ! (slot + l)"
  using assms by (auto simp: load_line_def split: if_splits)

subsection \<open>Lookup: \<open>get2\<close>\<close>

text \<open>
  One round of the \<open>for\<close> loop is \<open>get2_iter\<close>: \<open>Some r\<close> when the round returns
  \<open>r\<close>, \<open>None\<close> when the loop goes on.  \<open>get2_loop\<close> runs the rounds
  \<open>i = 0, ..., GPULDA_HASH_MAX_NUM_LINES - 1\<close> and returns 0 when they are used up.
\<close>

definition get2_iter :: "HashMap \<Rightarrow> u32 \<Rightarrow> nat \<Rightarrow> nat \<Rightarrow> nat \<Rightarrow> (fault + u32) option" where
  "get2_iter t half_warp_key initial_slot stride i =
     (let slot = (initial_slot + i * stride) mod capacity t in
      case load_line t slot of
        None \<Rightarrow> Some (Inl OutOfBounds)
      | Some entries \<Rightarrow>
          (let key_found = ballot (\<lambda>e. key_of e = half_warp_key) entries in
           if nonzero key_found then Some (Inr (value_of (entries ! (ffs key_found - 1))))
           else
             (let no_key = ballot (\<lambda>e. e = empty_entry \<or> key_distance t (key_of e) slot < i) entries in
              if nonzero no_key then Some (Inr 0) else None)))"

fun get2_loop :: "HashMap \<Rightarrow> u32 \<Rightarrow> nat \<Rightarrow> nat \<Rightarrow> nat list \<Rightarrow> fault + u32" where
  "get2_loop t half_warp_key initial_slot stride [] = Inr 0"
| "get2_loop t half_warp_key initial_slot stride (i # rest) =
     (case get2_iter t half_warp_key initial_slot stride i of
        Some r \<Rightarrow> r
      | None \<Rightarrow> get2_loop t half_warp_key initial_slot stride rest)"

definition get2 :: "HashMap \<Rightarrow> u32 \<Rightarrow> fault + u32" where
  "get2 t half_warp_key =
     (if capacity t div 16 = 0 then Inl DivisionByZero
      else get2_loop t half_warp_key (hash_slot t half_warp_key) (hash_stride t half_warp_key) [0..<4])"

subsection \<open>Update: \<open>try_insert2\<close>\<close>

text \<open>
  The local variables of the \<open>while(true)\<close> loop form \<open>insert_state\<close>.  One round is
  \<open>try_insert2_iter\<close>; its three swapping branches are \<open>swap_found\<close>, \<open>swap_empty\<close>
  and \<open>swap_evict\<close>, and \<open>advance\<close> is the final block that moves to the next line and
  raises \<open>rebuild\<close> at the limit.  The calls are written as in the source: the found branch
  calls \<open>with_value(thread_entry, value(thread_entry) + diff)\<close>, where the sum is a \<open>u32\<close>
  widened to the \<open>u64\<close> parameter, and after an eviction the loop continues with the key
  and value of \<open>thread_new_entry\<close>.
\<close>

record insert_state =
  s_table :: HashMap
  s_key :: u32
  s_diff :: i32
  s_slot :: nat
  s_stride :: nat
  s_distance :: nat

datatype step = Break HashMap | Again insert_state | Abort fault

definition atomicCAS :: "u64 list \<Rightarrow> nat \<Rightarrow> u64 \<Rightarrow> u64 \<Rightarrow> u64 \<times> u64 list" where
  "atomicCAS mem address compare val =
     (mem ! address, if mem ! address = compare then mem[address := val] else mem)"



definition swap_found :: "insert_state \<Rightarrow> u64 list \<Rightarrow> bool list \<Rightarrow> step" where
  "swap_found s thread_entry key_found =
     (let t = s_table s;
          swap_idx = (ffs key_found - 1) mod 16;
          swap_entry = thread_entry ! swap_idx;
          thread_new_entry = with_value swap_entry (ucast (value_of swap_entry + s_diff s));
          cas = atomicCAS (data t) (s_slot s + swap_idx) swap_entry thread_new_entry;
          swap_success = (swap_entry = fst cas)
      in if swap_success then Break (t\<lparr>data := snd cas\<rparr>)
         else Again (s\<lparr>s_table := t\<lparr>data := snd cas\<rparr>\<rparr>))"








lemma cas_own:
  "atomicCAS mem address (mem ! address) val = (mem ! address, mem[address := val])"
  by (simp add: atomicCAS_def)








subsection \<open>Allocation, \<open>init\<close>, \<open>resize\<close> and \<open>insert2\<close>\<close>

text \<open>
  The block is the owning half-warp (\<open>blockDim.x = 16\<close>, thread 0 is lane 0).  \<open>malloc\<close>
  is an input of the model: \<open>None\<close> is a NULL result, \<open>Some mem\<close> a block whose words
  hold whatever \<open>mem\<close> says, since \<open>allocate\<close> does not clear them.  The four values
  \<open>__float2uint_rz(capacity * r.w)\<close>, ... computed from the random draw are inputs as
  well (\<open>draws\<close>).  \<open>grow\<close> stands for
  \<open>__float2uint_rz(capacity * GPULDA_HASH_GROWTH_RATE)\<close> with the rate \<open>1.2f\<close>: it is
  the integer part of 1.2 times the capacity, which is what the single-precision product
  gives for tables of up to a million entries; nothing proved below depends on the value
  for larger ones.

  \<open>resize\<close> loops until an allocation fails or a migration leaves \<open>rebuild\<close> clear.  Its
  allocations are the list \<open>heap\<close>, one element per round of the \<open>do\<close> loop; the result is
  \<open>None\<close> when the loop is still running after the last of them.  The migration reads
  \<open>old_data[i]\<close> for \<open>i < old_capacity\<close> and \<open>empty()\<close> beyond, in rounds of
  \<open>blockDim.x\<close> lanes, shuffles every lane's word into the \<open>i32\<close> variable
  \<open>half_warp_entry\<close> and passes \<open>key(half_warp_entry)\<close> and \<open>value(half_warp_entry)\<close>,
  which widen that \<open>i32\<close> to the \<open>u64\<close> parameter, to \<open>try_insert2\<close>.
\<close>

record draws =
  draw_a :: u32
  draw_b :: u32
  draw_c :: u32
  draw_d :: u32



definition allocate :: "HashMap \<Rightarrow> nat \<Rightarrow> (nat \<Rightarrow> u64) option \<Rightarrow> draws \<Rightarrow> HashMap" where
  "allocate t allocate_capacity malloc_result r =
     t\<lparr>size_m := 0,
       capacity := allocate_capacity div 16 * 16,
       data := (case malloc_result of
                  None \<Rightarrow> []
                | Some mem \<Rightarrow> map mem [0..<allocate_capacity div 16 * 16]),
       data_non_aligned := (malloc_result \<noteq> None),
       hash_a := draw_a r, hash_b := draw_b r, hash_c := draw_c r, hash_d := draw_d r,
       rebuild := False\<rparr>"

definition init :: "HashMap \<Rightarrow> nat \<Rightarrow> (nat \<Rightarrow> u64) option \<Rightarrow> draws \<Rightarrow> i32 \<times> HashMap" where
  "init t initial_capacity malloc_result r =
     (let t1 = allocate t initial_capacity malloc_result r in
      if \<not> data_non_aligned t1 then (1, t1)
      else (0, t1\<lparr>data := map (\<lambda>i. empty_entry) [0..<capacity t1]\<rparr>))"






subsection \<open>Well-formed tables and the bounds of the probe sequence\<close>

text \<open>
  \<open>wf_table\<close> holds of every table \<open>allocate\<close> returns for a request of 16 to \<open>2^29\<close>
  entries: \<open>capacity\<close> words are addressable, the capacity is a positive multiple of the
  line size, and \<open>4 * capacity\<close> fits an \<open>i32\<close>, so the sums
  \<open>initial_slot + i * stride\<close> and \<open>slot + stride\<close> of the source do not overflow.
  \<open>probe t k i\<close> is the slot of round \<open>i\<close> of the probe sequence of key \<open>k\<close>.
\<close>

definition wf_table :: "HashMap \<Rightarrow> bool" where
  "wf_table t = (length (data t) = capacity t \<and> 16 dvd capacity t \<and> 16 \<le> capacity t \<and> capacity t \<le> 2 ^ 29)"

definition probe :: "HashMap \<Rightarrow> u32 \<Rightarrow> nat \<Rightarrow> nat" where
  "probe t k i = (hash_slot t k + i * hash_stride t k) mod capacity t"

lemma line_aligned_mod:
  fixes x c :: nat
  assumes "16 dvd x" and "16 dvd c" and "0 < c"
  shows "16 dvd x mod c \<and> x mod c + 16 \<le> c"
proof -
  have d: "16 dvd x mod c" using assms(1,2) by (simp add: dvd_mod)
  have lt: "x mod c < c" using assms(3) by simp
  obtain a where a: "x mod c = 16 * a" using d by (auto simp: dvd_def)
  obtain b where b: "c = 16 * b" using assms(2) by (auto simp: dvd_def)
  from lt a b have "a < b" by simp
  then have "16 * a + 16 \<le> 16 * b" by simp
  with a b d show ?thesis by simp
qed

lemma hash_slot_bound:
  assumes "wf_table t"
  shows "16 dvd hash_slot t k \<and> hash_slot t k + 16 \<le> capacity t"
proof -
  from assms have "16 dvd capacity t" and le: "16 \<le> capacity t" by (auto simp add: wf_table_def)
  then obtain n where n: "capacity t = 16 * n" by (elim dvdE)
  with le have pos: "0 < n" by simp
  have "unat ((hash_a t * k + hash_b t) mod 334214459) mod n < n" using pos by simp
  then have "unat ((hash_a t * k + hash_b t) mod 334214459) mod n * 16 + 16 \<le> 16 * n" by simp
  then show ?thesis by (simp add: hash_slot_def n)
qed

lemma hash_stride_bound:
  assumes "wf_table t"
  shows "16 dvd hash_stride t k \<and> hash_stride t k + 16 \<le> capacity t"
proof -
  from assms have "16 dvd capacity t" and le: "16 \<le> capacity t" by (auto simp add: wf_table_def)
  then obtain n where n: "capacity t = 16 * n" by (elim dvdE)
  with le have pos: "0 < n" by simp
  have "unat ((hash_c t * k + hash_d t) mod 334214459) mod n < n" using pos by simp
  then have "unat ((hash_c t * k + hash_d t) mod 334214459) mod n * 16 + 16 \<le> 16 * n" by simp
  then show ?thesis by (simp add: hash_stride_def n)
qed

lemma probe_bound:
  assumes "wf_table t"
  shows "16 dvd probe t k i \<and> probe t k i + 16 \<le> capacity t"
proof -
  have "16 dvd hash_slot t k + i * hash_stride t k"
    using hash_slot_bound [OF assms, of k] hash_stride_bound [OF assms, of k] by simp
  moreover have "16 dvd capacity t" "0 < capacity t" using assms by (auto simp: wf_table_def)
  ultimately show ?thesis unfolding probe_def by (intro line_aligned_mod)
qed

definition line_of :: "HashMap \<Rightarrow> nat \<Rightarrow> u64 list" where
  "line_of t slot = map (\<lambda>half_lane_idx. data t ! (slot + half_lane_idx)) [0..<16]"

lemma load_line_line_of:
  assumes "wf_table t" and "slot + 16 \<le> capacity t"
  shows "load_line t slot = Some (line_of t slot)"
  using assms by (simp add: load_line_def wf_table_def line_of_def)

lemma line_of_nth: "l < 16 \<Longrightarrow> line_of t slot ! l = data t ! (slot + l)"
  by (simp add: line_of_def)

lemma length_line_of [simp]: "length (line_of t slot) = 16"
  by (simp add: line_of_def)

lemma in_line_of: "e \<in> set (line_of t slot) \<longleftrightarrow> (\<exists>l<16. e = data t ! (slot + l))"
  by (auto simp: line_of_def)

lemma get2_iter_wf:
  assumes "wf_table t"
  shows "get2_iter t k (hash_slot t k) (hash_stride t k) i =
     (if nonzero (ballot (\<lambda>e. key_of e = k) (line_of t (probe t k i)))
      then Some (Inr (value_of (line_of t (probe t k i) ! (ffs (ballot (\<lambda>e. key_of e = k) (line_of t (probe t k i))) - 1))))
      else if nonzero (ballot (\<lambda>e. e = empty_entry \<or> key_distance t (key_of e) (probe t k i) < i) (line_of t (probe t k i)))
      then Some (Inr 0) else None)"
proof -
  have "load_line t (probe t k i) = Some (line_of t (probe t k i))"
    using probe_bound [OF assms, of k i] by (intro load_line_line_of [OF assms]) simp
  then show ?thesis by (simp add: get2_iter_def Let_def probe_def)
qed

lemma get2_loop_absent:
  assumes wf: "wf_table t" and absent: "\<forall>p<capacity t. key_of (data t ! p) \<noteq> k"
  shows "get2_loop t k (hash_slot t k) (hash_stride t k) js = Inr 0"
proof (induction js)
  case Nil
  then show ?case by simp
next
  case (Cons j js)
  have "\<not> nonzero (ballot (\<lambda>e. key_of e = k) (line_of t (probe t k j)))"
  proof
    assume "nonzero (ballot (\<lambda>e. key_of e = k) (line_of t (probe t k j)))"
    from nonzero_ballot_lane [OF this] obtain l
      where l: "l < 16" and k: "key_of (line_of t (probe t k j) ! l) = k" by auto
    have "probe t k j + l < capacity t" using probe_bound [OF wf, of k j] l by simp
    with absent k l show False by (simp add: line_of_nth)
  qed
  then show ?case using Cons by (simp add: get2_iter_wf [OF wf])
qed

subsection \<open>The Robin-Hood displacement invariant\<close>

text \<open>
  The invariant of the specification: every entry sits in a line of its own probe
  sequence, at some round \<open>i\<close> below \<open>GPULDA_HASH_MAX_NUM_LINES\<close>, and no line that
  precedes it on that sequence, at round \<open>j < i\<close>, holds an empty slot or an occupant whose
  displacement (\<open>key_distance\<close> in that line) is strictly smaller than \<open>j\<close>.
  \<open>line_clear t slot j\<close> is the condition on one such line.
\<close>

definition line_clear :: "HashMap \<Rightarrow> nat \<Rightarrow> nat \<Rightarrow> bool" where
  "line_clear t slot i =
     list_all (\<lambda>l. data t ! (slot + l) \<noteq> empty_entry
                  \<and> i \<le> key_distance t (key_of (data t ! (slot + l))) slot) [0..<16]"

definition robin_hood_invariant :: "HashMap \<Rightarrow> bool" where
  "robin_hood_invariant t =
     list_all (\<lambda>p. data t ! p = empty_entry \<or>
        list_ex (\<lambda>i. probe t (key_of (data t ! p)) i = p - p mod 16
                    \<and> list_all (\<lambda>j. line_clear t (probe t (key_of (data t ! p)) j) j) [0..<i]) [0..<4])
       [0..<capacity t]"

lemma line_clear_no_key:
  assumes "line_clear t slot i"
  shows "\<not> nonzero (ballot (\<lambda>e. e = empty_entry \<or> key_distance t (key_of e) slot < i) (line_of t slot))"
proof
  assume "nonzero (ballot (\<lambda>e. e = empty_entry \<or> key_distance t (key_of e) slot < i) (line_of t slot))"
  from nonzero_ballot_lane [OF this] obtain l where l: "l < 16"
    and "line_of t slot ! l = empty_entry \<or> key_distance t (key_of (line_of t slot ! l)) slot < i"
    by auto
  then have "data t ! (slot + l) = empty_entry \<or> key_distance t (key_of (data t ! (slot + l))) slot < i"
    by (simp add: line_of_nth)
  moreover from assms l have "data t ! (slot + l) \<noteq> empty_entry
      \<and> i \<le> key_distance t (key_of (data t ! (slot + l))) slot"
    by (simp add: line_clear_def list_all_iff)
  ultimately show False by auto
qed

lemma get2_iter_found:
  assumes wf: "wf_table t"
    and found: "nonzero (ballot (\<lambda>e. key_of e = k) (line_of t (probe t k i)))"
  shows "\<exists>q<capacity t. key_of (data t ! q) = k
           \<and> get2_iter t k (hash_slot t k) (hash_stride t k) i = Some (Inr (value_of (data t ! q)))"
proof -
  define l where "l = ffs (ballot (\<lambda>e. key_of e = k) (line_of t (probe t k i))) - 1"
  from nonzero_ballot_lane [OF found] have l: "l < 16"
    and k: "key_of (line_of t (probe t k i) ! l) = k" by (simp_all add: l_def)
  have "probe t k i + l < capacity t" using probe_bound [OF wf, of k i] l by simp
  moreover have "key_of (data t ! (probe t k i + l)) = k" using k l by (simp add: line_of_nth)
  moreover have "get2_iter t k (hash_slot t k) (hash_stride t k) i
      = Some (Inr (value_of (line_of t (probe t k i) ! l)))"
    unfolding get2_iter_wf [OF wf] l_def using found by simp
  then have "get2_iter t k (hash_slot t k) (hash_stride t k) i
      = Some (Inr (value_of (data t ! (probe t k i + l))))"
    using l by (simp add: line_of_nth)
  ultimately show ?thesis by blast
qed

lemma get2_loop_finds:
  assumes wf: "wf_table t"
    and clear: "\<forall>j\<in>set js. line_clear t (probe t k j) j"
    and here: "\<exists>l<16. key_of (data t ! (probe t k i + l)) = k"
  shows "\<exists>q<capacity t. key_of (data t ! q) = k
           \<and> get2_loop t k (hash_slot t k) (hash_stride t k) (js @ i # rest) = Inr (value_of (data t ! q))"
  using clear
proof (induction js)
  case Nil
  from here obtain l where l: "l < 16" "key_of (data t ! (probe t k i + l)) = k" by blast
  then have "data t ! (probe t k i + l) \<in> set (line_of t (probe t k i))"
    unfolding in_line_of by blast
  with l have "\<exists>e\<in>set (line_of t (probe t k i)). key_of e = k" by blast
  then have "nonzero (ballot (\<lambda>e. key_of e = k) (line_of t (probe t k i)))"
    by (auto simp: nonzero_def ballot_def)
  from get2_iter_found [OF wf this] show ?case by auto
next
  case (Cons j js)
  show ?case
  proof (cases "nonzero (ballot (\<lambda>e. key_of e = k) (line_of t (probe t k j)))")
    case True
    from get2_iter_found [OF wf True] show ?thesis by auto
  next
    case False
    from Cons.prems have "line_clear t (probe t k j) j" by simp
    from line_clear_no_key [OF this] False
    have "get2_iter t k (hash_slot t k) (hash_stride t k) j = None"
      by (simp add: get2_iter_wf [OF wf])
    moreover from Cons have "\<exists>q<capacity t. key_of (data t ! q) = k
           \<and> get2_loop t k (hash_slot t k) (hash_stride t k) (js @ i # rest) = Inr (value_of (data t ! q))"
      by simp
    ultimately show ?thesis by simp
  qed
qed

definition TW :: HashMap where
  "TW = \<lparr>size_m = 17, capacity = 32,
     data = [entry 4 1, entry 6 1, entry 8 1, entry 10 1, entry 12 1, entry 14 1, entry 16 1, entry 18 1,
             entry 20 1, entry 22 1, entry 24 1, entry 26 1, entry 28 1, entry 30 1, entry 32 1, entry 34 1,
             entry 2 9, empty_entry, empty_entry, empty_entry, empty_entry, empty_entry, empty_entry, empty_entry,
             empty_entry, empty_entry, empty_entry, empty_entry, empty_entry, empty_entry, empty_entry, empty_entry],
     data_non_aligned = True, hash_a = 1, hash_b = 0, hash_c = 0, hash_d = 1, rebuild = False\<rparr>"

text \<open>
  Claim C2.  For every topic key and every table that satisfies the Robin-Hood
  displacement invariant, \<open>get2\<close> returns the count stored for the key when the key is
  present and 0 when it is absent, also when the scan stops early at a match, an empty slot
  or an occupant of smaller displacement.  A topic id is below the number of topics, so it
  is never \<open>0xffffffff\<close>, the key field of the empty sentinel.  The count returned is that
  of an entry holding the key, which is the key's only entry when keys are not repeated.
\<close>

theorem get2_returns_stored_count:
  assumes wf: "wf_table t" and rh: "robin_hood_invariant t" and topic: "k \<noteq> key_of empty_entry"
  shows "((\<exists>p<capacity t. key_of (data t ! p) = k) \<longrightarrow>
            (\<exists>q<capacity t. key_of (data t ! q) = k \<and> get2 t k = Inr (value_of (data t ! q))))
       \<and> ((\<forall>p<capacity t. key_of (data t ! p) \<noteq> k) \<longrightarrow> get2 t k = Inr 0)"
proof (intro conjI impI)
  have cap: "capacity t div 16 \<noteq> 0" using wf by (auto simp: wf_table_def)
  {
    assume "\<forall>p<capacity t. key_of (data t ! p) \<noteq> k"
    then show "get2 t k = Inr 0"
      using cap by (simp add: get2_def get2_loop_absent [OF wf])
  }
  assume "\<exists>p<capacity t. key_of (data t ! p) = k"
  then obtain p where p: "p < capacity t" and kp: "key_of (data t ! p) = k" by blast
  with topic have "data t ! p \<noteq> empty_entry" by auto
  with rh p kp obtain i where i: "i < 4" and line: "probe t k i = p - p mod 16"
    and clear: "\<forall>j\<in>set [0..<i]. line_clear t (probe t k j) j"
    by (auto simp: robin_hood_invariant_def list_all_iff list_ex_iff)
  have "p mod 16 < 16" by simp
  moreover have "key_of (data t ! (probe t k i + p mod 16)) = k" using line kp by simp
  ultimately have here: "\<exists>l<16. key_of (data t ! (probe t k i + l)) = k" by blast
  have "[0..<4] = [0..<i] @ [i..<4]"
    using i upt_add_eq_append [of 0 i "4 - i"] by simp
  moreover have "[i..<4] = i # [Suc i..<4]"
    using i by (simp add: upt_conv_Cons)
  ultimately have "[0..<4] = [0..<i] @ i # [Suc i..<4]" by simp
  with get2_loop_finds [OF wf clear here, of "[Suc i..<4]"] cap
  show "\<exists>q<capacity t. key_of (data t ! q) = k \<and> get2 t k = Inr (value_of (data t ! q))"
    by (simp add: get2_def)
qed




theorem get2_returns_stored_count_witness:
  "wf_table TW \<and> robin_hood_invariant TW
   \<and> (\<exists>q<capacity TW. key_of (data TW ! q) = 2 \<and> get2 TW 2 = Inr (value_of (data TW ! q)))
   \<and> get2 TW 36 = Inr 0"
proof -
  have wf: "wf_table TW" by (simp add: wf_table_def TW_def)
  have rh: "robin_hood_invariant TW" by code_simp
  have topic: "(2 :: u32) \<noteq> key_of empty_entry" "(36 :: u32) \<noteq> key_of empty_entry" by simp_all
  have "key_of (data TW ! 16) = 2" by (simp add: TW_def)
  then have present: "\<exists>p<capacity TW. key_of (data TW ! p) = 2"
    by (intro exI [of _ 16]) (simp add: TW_def)
  have "list_all (\<lambda>e. key_of e \<noteq> 36) (data TW)" by (simp add: TW_def)
  moreover have "length (data TW) = capacity TW" by (simp add: TW_def)
  ultimately have absent: "\<forall>p<capacity TW. key_of (data TW ! p) \<noteq> 36"
    unfolding list_all_length by metis
  from get2_returns_stored_count [OF wf rh topic(1)] present
  have "\<exists>q<capacity TW. key_of (data TW ! q) = 2 \<and> get2 TW 2 = Inr (value_of (data TW ! q))" by blast
  moreover from get2_returns_stored_count [OF wf rh topic(2)] absent
  have "get2 TW 36 = Inr 0" by blast
  ultimately show ?thesis using wf rh by blast
qed

subsection \<open>Every access is within bounds\<close>




lemma length_atomicCAS [simp]: "length (snd (atomicCAS mem address compare val)) = length mem"
  by (simp add: atomicCAS_def)

lemma hash_stride_data_update [simp]: "hash_stride (t\<lparr>data := xs\<rparr>) k = hash_stride t k"
  by (simp add: hash_stride_def)












subsection \<open>Error status of \<open>insert2\<close>\<close>





subsection \<open>Evaluating the table on concrete inputs\<close>




subsection \<open>Accumulating into the table\<close>





text \<open>
  What the found branch swaps in, for any entry and any \<open>diff\<close>: key 0 and the count the
  entry had.
\<close>

lemma with_value_swapped: "with_value e (ucast (w :: u32)) = entry 0 (value_of e)"
  by (simp add: with_value_eq value_of_eq_ucast)

lemma swap_found_writes:
  assumes "load_line (s_table s) (s_slot s) = Some es"
  shows "swap_found s es bits =
     Break ((s_table s)\<lparr>data := (data (s_table s))
        [s_slot s + (ffs bits - 1) mod 16 := entry 0 (value_of (es ! ((ffs bits - 1) mod 16)))]\<rparr>)"
proof -
  have "(ffs bits - 1) mod 16 < 16" by simp
  then have "es ! ((ffs bits - 1) mod 16) = data (s_table s) ! (s_slot s + (ffs bits - 1) mod 16)"
    by (rule load_line_SomeD(3) [OF assms])
  then show ?thesis by (simp add: swap_found_def Let_def cas_own with_value_swapped)
qed






subsection \<open>Resizing\<close>


text \<open>
  What the migration passes to \<open>try_insert2\<close> for an old word \<open>e\<close>: the count of
  \<open>e\<close>, under key 0 (or \<open>0xffffffff\<close> when the count is negative).
\<close>

lemma migrated_key_value:
  "key_of (scast (ucast (e :: u64) :: i32) :: u64) = (if sint (value_of e) < 0 then 0xffffffff else 0)"
  "value_of (scast (ucast (e :: u64) :: i32) :: u64) = value_of e"
  by (simp_all only: key_of_scast value_of_scast value_of_eq_ucast [of e])




subsection \<open>The remove/commit pair of \<open>sample_topics\<close>\<close>











section \<open>The queue pair of the alias-table builder: \<open>warp_queue_pair_push\<close>\<close>

text \<open>
  A warp has 32 lanes; a lane is \<open>None\<close> when it is inactive at the call (the call sits
  inside \<open>if(i < table_size)\<close>) and \<open>Some (value, conditional)\<close> otherwise.  As for the
  hash table, a ballot is the list of the lanes' votes, an inactive lane voting no.
  \<open>popc\<close> counts the votes, and \<open>warp_lane_offset\<close>, which masks the ballot with
  \<open>~(0xffffffff << lane)\<close>, counts the votes of the lanes below.  The queues are the
  memory behind the pointers \<open>q1\<close>, \<open>q2\<close>, indexed by the \<open>int\<close> the source computes
  (\<open>queue_wraparound\<close> returns its argument), and the two counters.  Lane 0 performs both
  \<open>atomicAdd\<close>s and the start values are shuffled from it; when it is inactive they are
  undefined and the model returns \<open>None\<close>.  The second ballot is
  \<open>__ballot(~conditional)\<close>, with the bitwise complement of the source.
\<close>

record queue_pair =
  q1 :: "i32 \<Rightarrow> i32"
  q2 :: "i32 \<Rightarrow> i32"
  q1_end :: i32
  q2_end :: i32

definition popc :: "bool list \<Rightarrow> i32" where
  "popc bits = of_nat (length (filter (\<lambda>b. b) bits))"

definition warp_lane_offset :: "bool list \<Rightarrow> nat \<Rightarrow> i32" where
  "warp_lane_offset lane_bits lane_idx = popc (take (lane_idx mod 32) lane_bits)"

definition votes :: "(i32 \<Rightarrow> bool) \<Rightarrow> (i32 \<times> i32) option \<Rightarrow> bool" where
  "votes p lane = (case lane of None \<Rightarrow> False | Some (val, conditional) \<Rightarrow> p conditional)"

definition lane_write ::
  "(i32 \<times> i32) option list \<Rightarrow> bool list \<Rightarrow> bool list \<Rightarrow> i32 \<Rightarrow> i32 \<Rightarrow> nat \<Rightarrow> queue_pair \<Rightarrow> queue_pair" where
  "lane_write lanes warp_q1_bits warp_q2_bits warp_q1_start warp_q2_start lane_idx s =
     (case lanes ! lane_idx of
        None \<Rightarrow> s
      | Some (val, conditional) \<Rightarrow>
          if conditional \<noteq> 0
          then s\<lparr>q1 := (q1 s)(warp_q1_start + warp_lane_offset warp_q1_bits lane_idx := val)\<rparr>
          else s\<lparr>q2 := (q2 s)(warp_q2_start + warp_lane_offset warp_q2_bits lane_idx := val)\<rparr>)"

definition warp_queue_pair_push :: "(i32 \<times> i32) option list \<Rightarrow> queue_pair \<Rightarrow> queue_pair option" where
  "warp_queue_pair_push lanes s =
     (let warp_q1_bits = ballot (votes (\<lambda>conditional. conditional \<noteq> 0)) lanes;
          warp_q2_bits = ballot (votes (\<lambda>conditional. NOT conditional \<noteq> 0)) lanes;
          warp_num_q1 = popc warp_q1_bits;
          warp_num_q2 = popc warp_q2_bits
      in case lanes ! 0 of
           None \<Rightarrow> None
         | Some leader \<Rightarrow>
             Some (fold (lane_write lanes warp_q1_bits warp_q2_bits (q1_end s) (q2_end s)) [0..<32]
                     (s\<lparr>q1_end := q1_end s + warp_num_q1, q2_end := q2_end s + warp_num_q2\<rparr>)))"

definition two_lanes :: "(i32 \<times> i32) option list" where
  "two_lanes = Some (10, 1) # Some (11, 0) # replicate 30 None"

definition fresh_queues :: queue_pair where
  "fresh_queues = \<lparr>q1 = (\<lambda>i. 0), q2 = (\<lambda>i. 0), q1_end = 0, q2_end = 0\<rparr>"

text \<open>
  \<open>two_lanes\<close> is a warp with two active lanes: lane 0 pushes 10 with a true predicate
  (\<open>conditional = 1\<close>, as \<open>thread_prob >= cutoff\<close> yields), lane 1 pushes 11 with a false
  one (\<open>conditional = 0\<close>).
\<close>

lemma upt32: "[0..<32] = [0, 1, 2, 3, 4, 5, 6, 7, 8, 9, 10, 11, 12, 13, 14, 15, 16, 17, 18, 19, 20, 21, 22, 23, 24, 25, 26, 27, 28, 29, 30, 31 :: nat]"
  by (simp add: upt_rec)

text \<open>
  Claim C9 asks that every lane writes to the queue its predicate selects, at the reserved
  start plus the number of lower lanes voting for the same queue, and that each end counter
  advances by the number of lanes that write to that queue.  The code does not do that for
  the second queue: \<open>~conditional\<close> is nonzero for \<open>conditional = 1\<close> as well as for
  \<open>conditional = 0\<close>, so every active lane votes for \<open>q2\<close>.  In \<open>two_lanes\<close> one lane
  writes to \<open>q2\<close>, yet \<open>q2_end\<close> advances by 2 and the lane writes at offset 1, leaving
  slot 0 unwritten.
\<close>

theorem warp_queue_pair_push_overcounts:
  "(case warp_queue_pair_push two_lanes fresh_queues of
      None \<Rightarrow> False
    | Some s \<Rightarrow> q1_end s = 1 \<and> q1 s 0 = 10 \<and> q2_end s = 2 \<and> q2 s 0 = 0 \<and> q2 s 1 = 11)"
  by (simp add: warp_queue_pair_push_def two_lanes_def fresh_queues_def ballot_def votes_def popc_def
        warp_lane_offset_def lane_write_def upt32 Let_def)

section \<open>Column sums of the refreshed matrix: \<open>polya_urn_colsums\<close>\<close>

text \<open>
  The kernel runs one block per vocabulary word (\<open>blockIdx.x\<close> is the word, the grid has
  \<open>V\<close> blocks) on the transposed matrix, where the entry of topic \<open>row\<close> and word \<open>w\<close>
  is \<open>Phi[row + K * w]\<close>.  The block has \<open>num_warps\<close> full warps
  (\<open>GPULDA_POLYA_URN_COLSUMS_BLOCKDIM\<close> is a constant of \<open>tuning.cuh\<close>).  Floats are real
  numbers here, and the arrays are functions from the index.

  \<open>block_reduce_sum\<close> first reduces inside each warp: for \<open>offset = 16, 8, 4, 2, 1\<close>
  every lane adds the value \<open>__shfl_down\<close> delivers, which is the value of the lane
  \<open>offset\<close> above, or the lane's own value when there is no such lane.  Lane 0 of each
  warp then adds its value to \<open>block_sum\<close>, and all threads read the total.  Only the
  write to \<open>sigma_a\<close> is modelled; the kernel also fills the alias probabilities \<open>prob\<close>.
  \<open>polya_urn_colsums\<close> is the kernel of namespace \<open>gpulda\<close>, the one \<open>sample_phi\<close>
  launches; \<open>polya_urn_colsums_gplda\<close> further down is the older kernel of namespace
  \<open>gplda\<close>, which has no \<open>alpha\<close> parameter.
\<close>

definition shfl_down_add :: "nat \<Rightarrow> real list \<Rightarrow> real list" where
  "shfl_down_add offset lanes =
     map (\<lambda>l. lanes ! l + (if l + offset < length lanes then lanes ! (l + offset) else lanes ! l))
       [0..<length lanes]"

definition warp_reduce :: "real list \<Rightarrow> real list" where
  "warp_reduce lanes = fold shfl_down_add [16, 8, 4, 2, 1] lanes"

definition block_reduce_sum :: "nat \<Rightarrow> real \<Rightarrow> real list \<Rightarrow> real" where
  "block_reduce_sum num_warps block_sum thread_sum =
     fold (\<lambda>warp acc. acc + warp_reduce (take 32 (drop (32 * warp) thread_sum)) ! 0)
       [0..<num_warps] block_sum"

definition colsums_thread_sum :: "nat \<Rightarrow> (nat \<Rightarrow> real) \<Rightarrow> nat \<Rightarrow> nat \<Rightarrow> nat \<Rightarrow> real" where
  "colsums_thread_sum blockDim Phi K blockIdx tid =
     fold (\<lambda>offset thread_sum.
             let row = tid + offset * blockDim; array_idx = row + K * blockIdx
             in if row < K then thread_sum + Phi array_idx else thread_sum)
       [0..<K div blockDim + 1] 0"

definition polya_urn_colsums_block ::
  "nat \<Rightarrow> (nat \<Rightarrow> real) \<Rightarrow> (nat \<Rightarrow> real) \<Rightarrow> real \<Rightarrow> nat \<Rightarrow> nat \<Rightarrow> (nat \<Rightarrow> real)" where
  "polya_urn_colsums_block num_warps Phi sigma_a alpha K blockIdx =
     (let thread_sum = block_reduce_sum num_warps 0
            (map (colsums_thread_sum (32 * num_warps) Phi K blockIdx) [0..<32 * num_warps])
      in sigma_a(blockIdx := alpha * thread_sum))"

definition polya_urn_colsums ::
  "nat \<Rightarrow> nat \<Rightarrow> (nat \<Rightarrow> real) \<Rightarrow> (nat \<Rightarrow> real) \<Rightarrow> real \<Rightarrow> nat \<Rightarrow> (nat \<Rightarrow> real)" where
  "polya_urn_colsums gridDim num_warps Phi sigma_a alpha K =
     fold (\<lambda>blockIdx s. polya_urn_colsums_block num_warps Phi s alpha K blockIdx) [0..<gridDim] sigma_a"

lemma shfl_down_add_nth:
  "l < length lanes \<Longrightarrow>
   shfl_down_add offset lanes ! l = lanes ! l + (if l + offset < length lanes then lanes ! (l + offset) else lanes ! l)"
  by (simp add: shfl_down_add_def)

lemma length_shfl_down_add [simp]: "length (shfl_down_add offset lanes) = length lanes"
  by (simp add: shfl_down_add_def)

lemma sum_halves:
  fixes f :: "nat \<Rightarrow> real"
  shows "(\<Sum>j<2 * n. f j) = (\<Sum>j<n. f j + f (j + n))"
proof -
  have "(\<Sum>j<2 * n. f j) = (\<Sum>j<n. f j) + (\<Sum>j=n..<2 * n. f j)"
    by (metis (no_types) atLeast0LessThan le_add1 mult_2 sum.atLeastLessThan_concat zero_le)
  also have "(\<Sum>j=n..<2 * n. f j) = (\<Sum>j<n. f (j + n))"
    using sum.shift_bounds_nat_ivl [of f 0 n n] by (simp add: atLeast0LessThan mult_2)
  finally show ?thesis by (simp add: sum.distrib)
qed

lemma reduce_step:
  assumes "length lanes = 32" and "2 * n \<le> 32"
    and "\<And>l. l < 2 * n \<Longrightarrow> lanes ! l = g l"
  shows "(\<Sum>l<n. shfl_down_add n lanes ! l) = (\<Sum>l<2 * n. g l)"
proof -
  have "shfl_down_add n lanes ! l = g l + g (l + n)" if "l < n" for l
    using that assms by (simp add: shfl_down_add_nth)
  then show ?thesis by (simp add: sum_halves)
qed

lemma warp_reduce_lane0:
  assumes len: "length lanes = 32"
  shows "warp_reduce lanes ! 0 = sum_list lanes"
proof -
  define s1 where "s1 = shfl_down_add 16 lanes"
  define s2 where "s2 = shfl_down_add 8 s1"
  define s3 where "s3 = shfl_down_add 4 s2"
  define s4 where "s4 = shfl_down_add 2 s3"
  define s5 where "s5 = shfl_down_add 1 s4"
  have l: "length s1 = 32" "length s2 = 32" "length s3 = 32" "length s4 = 32"
    by (simp_all add: s1_def s2_def s3_def s4_def len)
  have "sum_list lanes = (\<Sum>l<2 * 16. lanes ! l)"
    by (simp add: sum_list_sum_nth len atLeast0LessThan)
  also have "\<dots> = (\<Sum>l<2 * 8. s1 ! l)"
    unfolding s1_def using reduce_step [of lanes 16 "\<lambda>l. lanes ! l"] len by simp
  also have "\<dots> = (\<Sum>l<2 * 4. s2 ! l)"
    unfolding s2_def using reduce_step [of s1 8 "\<lambda>l. s1 ! l"] l by simp
  also have "\<dots> = (\<Sum>l<2 * 2. s3 ! l)"
    unfolding s3_def using reduce_step [of s2 4 "\<lambda>l. s2 ! l"] l by simp
  also have "\<dots> = (\<Sum>l<2 * 1. s4 ! l)"
    unfolding s4_def using reduce_step [of s3 2 "\<lambda>l. s3 ! l"] l by simp
  also have "\<dots> = (\<Sum>l<1. s5 ! l)"
    unfolding s5_def using reduce_step [of s4 1 "\<lambda>l. s4 ! l"] l by simp
  also have "\<dots> = s5 ! 0" by simp
  finally show ?thesis
    by (simp add: warp_reduce_def s1_def s2_def s3_def s4_def s5_def)
qed

lemma block_reduce_sum_eq:
  assumes "length thread_sum = 32 * num_warps"
  shows "block_reduce_sum num_warps block_sum thread_sum = block_sum + sum_list thread_sum"
proof -
  have "fold (\<lambda>warp acc. acc + warp_reduce (take 32 (drop (32 * warp) thread_sum)) ! 0) [0..<n] block_sum
      = block_sum + sum_list (take (32 * n) thread_sum)" if "n \<le> num_warps" for n
    using that
  proof (induction n)
    case 0
    then show ?case by simp
  next
    case (Suc n)
    have "length (take 32 (drop (32 * n) thread_sum)) = 32" using Suc.prems assms by simp
    then have "warp_reduce (take 32 (drop (32 * n) thread_sum)) ! 0 = sum_list (take 32 (drop (32 * n) thread_sum))"
      by (rule warp_reduce_lane0)
    moreover have "take (32 * n + 32) thread_sum = take (32 * n) thread_sum @ take 32 (drop (32 * n) thread_sum)"
      by (rule take_add)
    moreover have "32 * Suc n = 32 * n + 32" by simp
    ultimately show ?case using Suc by (simp del: mult_Suc_right)
  qed
  from this [of num_warps] assms show ?thesis by (simp add: block_reduce_sum_def)
qed

lemma colsums_thread_sum_eq:
  "colsums_thread_sum B Phi K w tid =
     (\<Sum>offset<K div B + 1. if tid + offset * B < K then Phi (tid + offset * B + K * w) else 0)"
proof -
  have "fold (\<lambda>offset thread_sum.
             let row = tid + offset * B; array_idx = row + K * w
             in if row < K then thread_sum + Phi array_idx else thread_sum) [0..<n] a
      = a + (\<Sum>offset<n. if tid + offset * B < K then Phi (tid + offset * B + K * w) else 0)" for n and a :: real
    by (induction n) (simp_all add: Let_def)
  then show ?thesis by (simp add: colsums_thread_sum_def)
qed

lemma chunked_sum:
  fixes f :: "nat \<Rightarrow> real"
  assumes "0 < B"
  shows "(\<Sum>tid<B. \<Sum>offset<K div B + 1. if tid + offset * B < K then f (tid + offset * B) else 0)
       = (\<Sum>k<K. f k)"
proof -
  define g where "g i = (if i < K then f i else 0)" for i
  have "(\<Sum>tid<B. \<Sum>offset<K div B + 1. if tid + offset * B < K then f (tid + offset * B) else 0)
      = (\<Sum>offset<K div B + 1. \<Sum>tid<B. g (tid + offset * B))"
    unfolding g_def by (rule sum.swap)
  also have "\<dots> = (\<Sum>offset<K div B + 1. sum g {offset * B..<offset * B + B})"
  proof -
    have "(\<Sum>tid<B. g (tid + m)) = sum g {m..<m + B}" for m
      using sum.shift_bounds_nat_ivl [of g 0 m B] by (simp add: atLeast0LessThan add.commute)
    then show ?thesis by simp
  qed
  also have "\<dots> = sum g {..<(K div B + 1) * B}"
    by (rule sum.nat_group)
  also have "\<dots> = sum g {..<K} + sum g {K..<(K div B + 1) * B}"
  proof -
    have "K \<le> (K div B + 1) * B"
      using assms by (metis Suc_eq_plus1 dividend_less_div_times less_imp_le_nat mult.commute mult_Suc)
    then show ?thesis
      by (metis atLeast0LessThan sum.atLeastLessThan_concat zero_le)
  qed
  also have "sum g {K..<(K div B + 1) * B} = 0" by (simp add: g_def)
  also have "sum g {..<K} = (\<Sum>k<K. f k)" by (simp add: g_def)
  finally show ?thesis by simp
qed

lemma colsums_block_value:
  assumes "0 < num_warps"
  shows "polya_urn_colsums_block num_warps Phi sigma_a alpha K w
       = sigma_a(w := alpha * (\<Sum>k<K. Phi (k + K * w)))"
proof -
  have "sum_list (map (colsums_thread_sum (32 * num_warps) Phi K w) [0..<32 * num_warps])
      = (\<Sum>tid<32 * num_warps. colsums_thread_sum (32 * num_warps) Phi K w tid)"
    by (simp add: interv_sum_list_conv_sum_set_nat atLeast0LessThan)
  also have "\<dots> = (\<Sum>k<K. Phi (k + K * w))"
    unfolding colsums_thread_sum_eq
    using chunked_sum [of "32 * num_warps" K "\<lambda>k. Phi (k + K * w)"] assms by simp
  finally show ?thesis
    by (simp add: polya_urn_colsums_block_def block_reduce_sum_eq)
qed

lemma colsums_value:
  assumes "0 < num_warps"
  shows "polya_urn_colsums V num_warps Phi sigma_a alpha K w
       = (if w < V then alpha * (\<Sum>k<K. Phi (k + K * w)) else sigma_a w)"
  unfolding polya_urn_colsums_def
  by (induction V) (simp_all add: colsums_block_value [OF assms])

definition polya_urn_colsums_gplda_block ::
  "nat \<Rightarrow> (nat \<Rightarrow> real) \<Rightarrow> (nat \<Rightarrow> real) \<Rightarrow> nat \<Rightarrow> nat \<Rightarrow> (nat \<Rightarrow> real)" where
  "polya_urn_colsums_gplda_block num_warps Phi sigma_a K blockIdx =
     (let thread_sum = block_reduce_sum num_warps 0
            (map (colsums_thread_sum (32 * num_warps) Phi K blockIdx) [0..<32 * num_warps])
      in sigma_a(blockIdx := thread_sum))"

definition polya_urn_colsums_gplda ::
  "nat \<Rightarrow> nat \<Rightarrow> (nat \<Rightarrow> real) \<Rightarrow> (nat \<Rightarrow> real) \<Rightarrow> nat \<Rightarrow> (nat \<Rightarrow> real)" where
  "polya_urn_colsums_gplda gridDim num_warps Phi sigma_a K =
     fold (\<lambda>blockIdx s. polya_urn_colsums_gplda_block num_warps Phi s K blockIdx) [0..<gridDim] sigma_a"

lemma block_total:
  assumes "0 < num_warps"
  shows "block_reduce_sum num_warps 0
           (map (colsums_thread_sum (32 * num_warps) Phi K w) [0..<32 * num_warps])
       = (\<Sum>k<K. Phi (k + K * w))"
proof -
  have "sum_list (map (colsums_thread_sum (32 * num_warps) Phi K w) [0..<32 * num_warps])
      = (\<Sum>tid<32 * num_warps. colsums_thread_sum (32 * num_warps) Phi K w tid)"
    by (simp add: interv_sum_list_conv_sum_set_nat atLeast0LessThan)
  also have "\<dots> = (\<Sum>k<K. Phi (k + K * w))"
    unfolding colsums_thread_sum_eq
    using chunked_sum [of "32 * num_warps" K "\<lambda>k. Phi (k + K * w)"] assms by simp
  finally show ?thesis by (simp add: block_reduce_sum_eq)
qed

lemma colsums_gplda_value:
  assumes "0 < num_warps"
  shows "polya_urn_colsums_gplda V num_warps Phi sigma_a K w
       = (if w < V then (\<Sum>k<K. Phi (k + K * w)) else sigma_a w)"
  unfolding polya_urn_colsums_gplda_def
  by (induction V) (simp_all add: polya_urn_colsums_gplda_block_def block_total [OF assms])

text \<open>
  Claim C8, amended.  After \<open>polya_urn_colsums\<close>, for every vocabulary word \<open>w\<close>,
  \<open>sigma_a[w]\<close> is \<open>alpha\<close> times the column sum over all \<open>K\<close> topics of the entries
  \<open>Phi[., w]\<close>; it is the column sum itself in the older kernel \<open>gplda::polya_urn_colsums\<close>.
\<close>

theorem polya_urn_colsums_sigma_a:
  assumes "0 < num_warps" and "w < V"
  shows "polya_urn_colsums V num_warps Phi sigma_a alpha K w = alpha * (\<Sum>k<K. Phi (k + K * w))
       \<and> polya_urn_colsums_gplda V num_warps Phi sigma_a K w = (\<Sum>k<K. Phi (k + K * w))"
  using assms by (simp add: colsums_value colsums_gplda_value)

theorem polya_urn_colsums_sigma_a_witness:
  "polya_urn_colsums 2 1 (\<lambda>i. real i) (\<lambda>w. 0) 2 3 1 = 24
   \<and> polya_urn_colsums_gplda 2 1 (\<lambda>i. real i) (\<lambda>w. 0) 3 1 = 12"
  using polya_urn_colsums_sigma_a [of 1 1 2 "\<lambda>i. real i" "\<lambda>w. 0" 2 3]
  by (simp add: lessThan_Suc numeral_3_eq_3)

text \<open>
  The claim as stated, without the factor, fails for one topic, one word, the entry 1
  and \<open>alpha = 2\<close>: \<open>sigma_a[0]\<close> is 2 and the column sum is 1.
\<close>

theorem polya_urn_colsums_counterexample:
  "polya_urn_colsums 1 1 (\<lambda>i. 1) (\<lambda>w. 0) 2 1 0 \<noteq> (\<Sum>k<1. (\<lambda>i :: nat. 1 :: real) (k + 1 * 0))"
  by (simp add: colsums_value)

section \<open>The draw of \<open>sample_topics\<close>\<close>

text \<open>
  The two uniform variates, \<open>sigma_a[warp_w]\<close> and \<open>sigma_b\<close> are 32-bit floats in the
  source; they are real numbers here.  \<open>exact_branch\<close> is the test of the \<open>if\<close> that
  chooses between \<open>draw_wary_search\<close> (the sparse exact term) and \<open>draw_alias\<close>.
\<close>

definition exact_branch :: "real \<Rightarrow> real \<Rightarrow> real \<Rightarrow> bool" where
  "exact_branch u1 warp_sigma_a sigma_b = (u1 * (warp_sigma_a + sigma_b) > warp_sigma_a)"

text \<open>
  Modelled from the spec: \<open>compute_product_cumsum\<close> is called by \<open>sample_topics\<close> but is
  not among the sources.  By the specification \<open>sigma_b\<close> is the grand total of the
  cumulative sum, over every topic present with nonzero count in the table, of
  \<open>count(topic) * Phi[word, topic]\<close>; \<open>Phi_word\<close> is the row of the word.  The live
  entries of a table are its slots that are not empty.
\<close>

definition live_entries :: "HashMap \<Rightarrow> u64 list" where
  "live_entries m = filter (\<lambda>e. e \<noteq> empty_entry) (data m)"

definition compute_product_cumsum :: "HashMap \<Rightarrow> (u32 \<Rightarrow> real) \<Rightarrow> real" where
  "compute_product_cumsum m Phi_word =
     sum_list (map (\<lambda>e. real_of_int (sint (value_of e)) * Phi_word (key_of e))
                 (filter (\<lambda>e. value_of e \<noteq> 0) (live_entries m)))"

definition empty_table :: HashMap where
  "empty_table = \<lparr>size_m = 0, capacity = 16, data = replicate 16 empty_entry, data_non_aligned = True,
     hash_a = 1, hash_b = 0, hash_c = 0, hash_d = 0, rebuild = False\<rparr>"

text \<open>
  Claim C5, amended.  The exact-term branch is taken exactly when
  \<open>u1 * (sigma_a[word] + sigma_b) > sigma_a[word]\<close>.  When the table has no live entry,
  \<open>sigma_b\<close> is 0, and for every \<open>u1\<close> in \<open>(0, 1]\<close> the inequality fails, so that the
  alias table is used, provided \<open>sigma_a[word]\<close> is not negative.  The proviso is needed:
  the test itself does not exclude a negative \<open>sigma_a[word]\<close>, for which the branch is
  taken (\<open>exact_branch_counterexample\<close> below).
\<close>

theorem exact_branch_needs_live_entries:
  "(exact_branch u1 warp_sigma_a sigma_b \<longleftrightarrow> u1 * (warp_sigma_a + sigma_b) > warp_sigma_a)
   \<and> (live_entries m = [] \<longrightarrow> compute_product_cumsum m Phi_word = 0)
   \<and> (live_entries m = [] \<and> 0 < u1 \<and> u1 \<le> 1 \<and> 0 \<le> warp_sigma_a
        \<longrightarrow> \<not> exact_branch u1 warp_sigma_a (compute_product_cumsum m Phi_word))"
proof (intro conjI impI)
  show "exact_branch u1 warp_sigma_a sigma_b \<longleftrightarrow> u1 * (warp_sigma_a + sigma_b) > warp_sigma_a"
    by (simp add: exact_branch_def)
  assume "live_entries m = []"
  then show "compute_product_cumsum m Phi_word = 0" by (simp add: compute_product_cumsum_def)
next
  assume a: "live_entries m = [] \<and> 0 < u1 \<and> u1 \<le> 1 \<and> 0 \<le> warp_sigma_a"
  then have "compute_product_cumsum m Phi_word = 0" by (simp add: compute_product_cumsum_def)
  moreover from a have "u1 * warp_sigma_a \<le> 1 * warp_sigma_a"
    by (intro mult_right_mono) simp_all
  ultimately show "\<not> exact_branch u1 warp_sigma_a (compute_product_cumsum m Phi_word)"
    by (simp add: exact_branch_def)
qed

theorem exact_branch_needs_live_entries_witness:
  "live_entries empty_table = []
   \<and> compute_product_cumsum empty_table (\<lambda>k. 1 / 4) = 0
   \<and> \<not> exact_branch (1 / 2) 3 (compute_product_cumsum empty_table (\<lambda>k. 1 / 4))"
proof -
  have e: "live_entries empty_table = []" by (simp add: live_entries_def empty_table_def)
  from exact_branch_needs_live_entries [of "1 / 2" 3 0 empty_table "\<lambda>k. 1 / 4"] e
  show ?thesis by simp
qed

text \<open>
  The claim as stated, without the proviso, fails for \<open>u1 = 1/2\<close> and
  \<open>sigma_a[word] = -1\<close> on an empty table.
\<close>

theorem exact_branch_counterexample:
  "live_entries empty_table = []
   \<and> exact_branch (1 / 2) (- 1) (compute_product_cumsum empty_table (\<lambda>k. 1 / 4))"
  by (simp add: live_entries_def empty_table_def compute_product_cumsum_def exact_branch_def)

end
